theory Spec2Isabelle
  imports Main "HOL-Library.Extended_Nat"
begin

section \<open>A from-scratch HTTP/1.1 fetch over a TCP stream\<close>

text \<open>
  The development embeds the final implementation listed in the post
  \<^emph>\<open>Implementing fetch in node\<close>: \<^verbatim>\<open>parseContentLength\<close>, \<^verbatim>\<open>readResponse\<close> and
  \<^verbatim>\<open>fetch\<close>.

  JavaScript strings are modelled as \<^typ>\<open>string\<close>. The handler iterates
  \<^verbatim>\<open>data.toString('utf8')\<close> with \<^verbatim>\<open>for ... of\<close>, one code point at a time, and
  \<^verbatim>\<open>body.length\<close> counts UTF-16 units; the two agree on every character that is a
  single UTF-16 unit, which is the case for every \<^typ>\<open>char\<close> of the model. A chunk of
  the model is the decoded text of one \<^verbatim>\<open>'data'\<close> event.
\<close>

subsection \<open>Characters and the content-length pattern\<close>

abbreviation CR :: char where "CR \<equiv> CHR 0x0D"
abbreviation LF :: char where "LF \<equiv> CHR 0x0A"

text \<open>\<^verbatim>\<open>\d\<close> of a JavaScript regular expression: the ten ASCII digits.\<close>

definition is_digit :: "char \<Rightarrow> bool" where
  "is_digit c = (c \<in> set ''0123456789'')"

text \<open>
  The \<^verbatim>\<open>i\<close> flag compares characters after canonicalisation, which is
  \<^verbatim>\<open>toUpperCase\<close> on single characters. The pattern is ASCII only, and no
  character outside ASCII canonicalises to an ASCII one, so only the ASCII letters
  need folding.
\<close>

definition canonicalize :: "char \<Rightarrow> char" where
  "canonicalize c =
     (case map_of (zip ''abcdefghijklmnopqrstuvwxyz'' ''ABCDEFGHIJKLMNOPQRSTUVWXYZ'') c of
        None \<Rightarrow> c
      | Some u \<Rightarrow> u)"

text \<open>The literal part of \<^verbatim>\<open>/content-length: (?<contentLength>\d+)/i\<close>.\<close>

definition pattern_literal :: string where
  "pattern_literal = ''content-length: ''"

text \<open>
  One attempt of the regular expression at the start of the text: the literal,
  compared modulo case, then the greedy, non-empty run of digits, which is the
  named group.
\<close>

definition match_here :: "string \<Rightarrow> string option" where
  "match_here s =
     (if length pattern_literal \<le> length s \<and>
         map canonicalize (take (length pattern_literal) s) = map canonicalize pattern_literal
      then (let ds = takeWhile is_digit (drop (length pattern_literal) s)
            in if ds = [] then None else Some ds)
      else None)"

text \<open>
  \<^verbatim>\<open>rawHeaders.match(pattern)\<close>: the attempt is made at each start position from
  left to right and the first success is the result; \<^const>\<open>None\<close> is JavaScript's
  \<^verbatim>\<open>null\<close>.
\<close>

fun match_pattern :: "string \<Rightarrow> string option" where
  "match_pattern [] = match_here []"
| "match_pattern (c # cs) =
     (case match_here (c # cs) of Some ds \<Rightarrow> Some ds | None \<Rightarrow> match_pattern cs)"

text \<open>
  \<^verbatim>\<open>Number\<close> on a non-empty string of decimal digits: the digits denote a
  natural number, and the result is the double nearest to it, with ties going to
  the even significand, as node computes it. A double has 53 significant bits, so
  a number of at most 53 bits is kept as it is; of a longer one the leading 53
  bits are kept, rounded by the bits dropped, and a result of \<open>2^1024\<close> or more is
  \<^verbatim>\<open>Infinity\<close>. Every finite result is a natural number, so the results are
  modelled in \<^typ>\<open>enat\<close>, with \<open>\<infinity>\<close> for \<^verbatim>\<open>Infinity\<close>.
\<close>

definition digit_val :: "char \<Rightarrow> nat" where
  "digit_val c =
     (case map_of (zip ''0123456789'' [0, 1, 2, 3, 4, 5, 6, 7, 8, 9]) c of
        None \<Rightarrow> 0
      | Some d \<Rightarrow> d)"

text \<open>The natural number that a string of digits denotes.\<close>

definition decimal :: "string \<Rightarrow> nat" where
  "decimal ds = foldl (\<lambda>n c. 10 * n + digit_val c) 0 ds"

text \<open>The number of bits of a natural number: 0 for 0, else the position of the leading 1.\<close>

fun bit_length :: "nat \<Rightarrow> nat" where
  "bit_length n = (if n = 0 then 0 else Suc (bit_length (n div 2)))"

declare bit_length.simps [simp del]

text \<open>
  \<open>n\<close> without its \<open>e\<close> lowest bits, rounded to nearest by the bits dropped; on a
  tie the even result is taken.
\<close>

definition round_half_even :: "nat \<Rightarrow> nat \<Rightarrow> nat" where
  "round_half_even n e =
     (if 2 * (n mod 2 ^ e) < 2 ^ e then n div 2 ^ e
      else if 2 ^ e < 2 * (n mod 2 ^ e) then Suc (n div 2 ^ e)
      else if even (n div 2 ^ e) then n div 2 ^ e
      else Suc (n div 2 ^ e))"

definition to_double :: "nat \<Rightarrow> enat" where
  "to_double n =
     (if bit_length n \<le> 53 then enat n
      else if round_half_even n (bit_length n - 53) * 2 ^ (bit_length n - 53) < 2 ^ 1024
      then enat (round_half_even n (bit_length n - 53) * 2 ^ (bit_length n - 53))
      else \<infinity>)"

definition Number :: "string \<Rightarrow> enat" where
  "Number ds = to_double (decimal ds)"

text \<open>
  Exceptions of the program. \<^verbatim>\<open>parseContentLength\<close> reads \<^verbatim>\<open>.groups\<close> of the
  match result; on \<^verbatim>\<open>null\<close> that is JavaScript's \<^verbatim>\<open>TypeError\<close>. The \<^verbatim>\<open>URL\<close>
  constructor throws a \<^verbatim>\<open>TypeError\<close> too; a failed \<^verbatim>\<open>dns.lookup\<close> rejects with a
  plain \<^verbatim>\<open>Error\<close>.
\<close>

datatype error = TypeError | LookupError

definition parseContentLength :: "string \<Rightarrow> error + enat" where
  "parseContentLength rawHeaders =
     (case match_pattern rawHeaders of
        None \<Rightarrow> Inl TypeError
      | Some ds \<Rightarrow> Inr (Number ds))"

subsection \<open>The response reader\<close>

text \<open>
  Calls that \<^verbatim>\<open>readResponse\<close> makes on its two arguments, in order:
  \<^verbatim>\<open>connection.pause()\<close>, \<^verbatim>\<open>onHeaders(handle)\<close>, \<^verbatim>\<open>connection.resume()\<close> and
  \<^verbatim>\<open>connection.end(callback)\<close>.
\<close>

datatype call = Pause | OnHeaders | Resume | End

text \<open>
  The variables of one \<^verbatim>\<open>readResponse\<close> closure. \<open>contentLength\<close> is \<^const>\<open>None\<close>
  while it is \<^verbatim>\<open>undefined\<close>. \<open>onBody\<close> is \<^const>\<open>None\<close> while it is the initial
  no-op and \<open>Some k\<close> once it is the \<^verbatim>\<open>resolve\<close> of the promise that the \<open>k\<close>-th
  call of \<^verbatim>\<open>text()\<close> returned. The remaining fields are the part of the
  environment the closure acts on: \<open>calls\<close> records the calls made so far,
  \<open>paused\<close> is the flow state of the connection, \<open>held\<close> the chunks that arrived
  while it was paused, \<open>finishing\<close> the number of \<^verbatim>\<open>end\<close> callbacks not yet run and
  \<open>texts\<close> the promises returned by \<^verbatim>\<open>text()\<close> (\<^const>\<open>None\<close> pending, \<open>Some v\<close>
  resolved with \<open>v\<close>).
\<close>

record reader =
  contentLength :: "enat option"
  onBody :: "nat option"
  rawHeaders :: string
  body :: string
  headersRead :: bool
  calls :: "call list"
  paused :: bool
  held :: "string list"
  finishing :: nat
  texts :: "string option list"

text \<open>The marker is the line feed followed by the carriage return.\<close>

definition bodyStartMarker :: string where
  "bodyStartMarker = [LF, CR]"

text \<open>
  A call of \<^verbatim>\<open>readResponse\<close> creates the variables with their initial values and
  registers the listener on a connection that is flowing.
\<close>

definition readResponse :: reader where
  "readResponse =
     \<lparr>contentLength = None, onBody = None, rawHeaders = [], body = [],
      headersRead = False, calls = [], paused = False, held = [],
      finishing = 0, texts = []\<rparr>"

text \<open>\<^verbatim>\<open>s.slice(-1)\<close>: the last character as a string, empty on the empty string.\<close>

definition slice_last :: "string \<Rightarrow> string" where
  "slice_last s = (if s = [] then [] else [last s])"

text \<open>
  The body of the \<^verbatim>\<open>for\<close> loop for one character. A throw of
  \<^verbatim>\<open>parseContentLength\<close> leaves the handler at once, before any assignment.
\<close>

definition on_char :: "reader \<Rightarrow> char \<Rightarrow> error + reader" where
  "on_char s c =
     (if \<not> headersRead s then
        (let previousChar = slice_last (rawHeaders s) in
         if previousChar @ [c] = bodyStartMarker then
           (case parseContentLength (rawHeaders s) of
              Inl e \<Rightarrow> Inl e
            | Inr n \<Rightarrow>
                Inr (s\<lparr>contentLength := Some n, headersRead := True,
                       paused := True, calls := calls s @ [Pause, OnHeaders]\<rparr>))
         else Inr (s\<lparr>rawHeaders := rawHeaders s @ [c]\<rparr>))
      else
        (let s' = s\<lparr>body := body s @ [c]\<rparr> in
         if Some (enat (length (body s'))) = contentLength s'
         then Inr (s'\<lparr>finishing := Suc (finishing s'), calls := calls s' @ [End]\<rparr>)
         else Inr s'))"

text \<open>The \<^verbatim>\<open>'data'\<close> listener: the loop over the characters of one chunk.\<close>

fun on_data :: "reader \<Rightarrow> string \<Rightarrow> error + reader" where
  "on_data s [] = Inr s"
| "on_data s (c # cs) =
     (case on_char s c of Inl e \<Rightarrow> Inl e | Inr s' \<Rightarrow> on_data s' cs)"

text \<open>The listener run on a sequence of chunks, stopping at the first throw.\<close>

fun on_chunks :: "reader \<Rightarrow> string list \<Rightarrow> error + reader" where
  "on_chunks s [] = Inr s"
| "on_chunks s (d # ds) =
     (case on_data s d of Inl e \<Rightarrow> Inl e | Inr s' \<Rightarrow> on_chunks s' ds)"

subsection \<open>The connection and the caller\<close>

text \<open>
  What happens around the listener, one event at a time. The connection is node's
  \<^verbatim>\<open>net.Socket\<close>: while paused it emits no \<^verbatim>\<open>'data'\<close> and keeps what arrives, and
  \<^verbatim>\<open>resume()\<close> lets the kept chunks through; the callback given to \<^verbatim>\<open>end\<close> runs
  later, never inside the listener; the peer closing the connection emits
  \<^verbatim>\<open>'end'\<close> and \<^verbatim>\<open>'close'\<close>, for which \<^verbatim>\<open>readResponse\<close> registers no listener.
\<close>

datatype event =
    Data string   \<comment> \<open>a chunk arrives from the peer\<close>
  | Text          \<comment> \<open>the caller invokes \<^verbatim>\<open>text()\<close> on the handle\<close>
  | Finish        \<comment> \<open>the callback given to \<^verbatim>\<open>connection.end\<close> runs\<close>
  | Close         \<comment> \<open>the peer closes the connection\<close>

text \<open>
  \<^verbatim>\<open>text()\<close>: resume the connection, create a promise and store its \<^verbatim>\<open>resolve\<close>
  in \<open>onBody\<close>; the chunks kept by the paused connection then reach the listener.
\<close>

definition text_call :: "reader \<Rightarrow> error + reader" where
  "text_call s =
     on_chunks
       (s\<lparr>paused := False, calls := calls s @ [Resume], held := [],
          texts := texts s @ [None], onBody := Some (length (texts s))\<rparr>)
       (held s)"

text \<open>
  \<^verbatim>\<open>() => onBody(body)\<close>: both variables are read when the callback runs. Resolving
  a promise that is already resolved has no effect.
\<close>

definition end_callback :: "reader \<Rightarrow> reader" where
  "end_callback s =
     (case onBody s of
        None \<Rightarrow> s
      | Some k \<Rightarrow>
          (if k < length (texts s) \<and> texts s ! k = None
           then s\<lparr>texts := (texts s)[k := Some (body s)]\<rparr> else s))"

text \<open>
  The handle reaches the caller through \<^verbatim>\<open>onHeaders\<close>, so \<^verbatim>\<open>text()\<close> cannot be
  called before; \<^const>\<open>Finish\<close> has no effect unless a callback is waiting.
\<close>

fun on_event :: "reader \<Rightarrow> event \<Rightarrow> error + reader" where
  "on_event s (Data d) =
     (if paused s then Inr (s\<lparr>held := held s @ [d]\<rparr>) else on_data s d)"
| "on_event s Text = (if headersRead s then text_call s else Inr s)"
| "on_event s Finish =
     (if finishing s = 0 then Inr s
      else Inr (end_callback (s\<lparr>finishing := finishing s - 1\<rparr>)))"
| "on_event s Close = Inr s"

fun run :: "reader \<Rightarrow> event list \<Rightarrow> error + reader" where
  "run s [] = Inr s"
| "run s (e # es) =
     (case on_event s e of Inl x \<Rightarrow> Inl x | Inr s' \<Rightarrow> run s' es)"

subsection \<open>fetch\<close>

text \<open>The properties of node's \<^verbatim>\<open>URL\<close> object that \<^verbatim>\<open>fetch\<close> reads, and \<open>protocol\<close>.\<close>

record url =
  protocol :: string
  hostname :: string
  port :: string
  pathname :: string

text \<open>\<^verbatim>\<open>url.port || 80\<close> is the number 80 or the non-empty port string.\<close>

datatype port_arg = PortNumber nat | PortString string

datatype net_call =
    Lookup string                      \<comment> \<open>\<^verbatim>\<open>dns.lookup(hostname)\<close>\<close>
  | CreateConnection port_arg string   \<comment> \<open>\<^verbatim>\<open>createConnection({port, host})\<close>\<close>
  | Write string                       \<comment> \<open>\<^verbatim>\<open>connection.write(request)\<close>\<close>
  | ReadResponse                       \<comment> \<open>\<^verbatim>\<open>readResponse(connection, resolve)\<close>\<close>

definition request :: "url \<Rightarrow> string" where
  "request u =
     (''GET '' @ pathname u @ '' HTTP/1.1'') @ [LF] @ (''host: '' @ hostname u) @ [LF, LF]"

text \<open>
  \<^verbatim>\<open>fetch\<close> up to the point where the reader is attached. The \<^verbatim>\<open>URL\<close> constructor and
  \<^verbatim>\<open>dns.lookup\<close> belong to node and are parameters: \<open>URL\<close> maps the strings that the
  constructor accepts to their parts and \<open>lookup\<close> maps the host names that resolve to
  their address; \<open>connects\<close> tells whether the connection gets established, which
  is when the listener given to \<^verbatim>\<open>createConnection\<close> runs. The result is the list of
  network calls made and the error that rejected the promise, if any.
\<close>

definition fetch ::
  "(string \<rightharpoonup> url) \<Rightarrow> (string \<rightharpoonup> string) \<Rightarrow> bool \<Rightarrow> string \<Rightarrow> net_call list \<times> error option"
where
  "fetch URL lookup connects urlString =
     (case URL urlString of
        None \<Rightarrow> ([], Some TypeError)
      | Some u \<Rightarrow>
          (case lookup (hostname u) of
             None \<Rightarrow> ([Lookup (hostname u)], Some LookupError)
           | Some address \<Rightarrow>
               ([Lookup (hostname u),
                 CreateConnection
                   (if port u = [] then PortNumber 80 else PortString (port u)) address]
                @ (if connects then [Write (request u), ReadResponse] else []),
                None)))"

subsection \<open>Notions used to state the properties\<close>

text \<open>
  The position at which a sequence first occurs in a stream: \<open>Some i\<close> when the
  occurrence starts after \<open>i\<close> elements, \<^const>\<open>None\<close> when there is none.
\<close>

fun first_occurrence :: "'a list \<Rightarrow> 'a list \<Rightarrow> nat option" where
  "first_occurrence pat [] = (if pat = [] then Some 0 else None)"
| "first_occurrence pat (x # xs) =
     (if take (length pat) (x # xs) = pat then Some 0
      else map_option Suc (first_occurrence pat xs))"

text \<open>The headers-ready notification has been delivered: \<^verbatim>\<open>onHeaders\<close> was called.\<close>

definition notified :: "error + reader \<Rightarrow> bool" where
  "notified r = (case r of Inl e \<Rightarrow> False | Inr s \<Rightarrow> OnHeaders \<in> set (calls s))"

text \<open>
  The declared length is reached while the characters \<open>xs\<close> are appended to the
  body: the test \<^verbatim>\<open>body.length === contentLength\<close> succeeds for one of them.
\<close>

definition body_complete :: "reader \<Rightarrow> string \<Rightarrow> bool" where
  "body_complete s xs =
     (case contentLength s of
        None \<Rightarrow> False
      | Some \<infinity> \<Rightarrow> False
      | Some (enat n) \<Rightarrow> length (body s) < n \<and> n \<le> length (body s) + length xs)"

text \<open>
  The variables right after the marker has been seen with header text \<open>hs\<close> and
  parsed length \<open>n\<close>.
\<close>

definition recognised :: "reader \<Rightarrow> string \<Rightarrow> enat \<Rightarrow> reader" where
  "recognised s hs n =
     s\<lparr>rawHeaders := hs, contentLength := Some n, headersRead := True, paused := True,
       calls := calls s @ [Pause, OnHeaders]\<rparr>"

text \<open>The header block of the example response, up to the empty line.\<close>

definition ok_head :: string where
  "ok_head = ''HTTP/1.1 200 OK'' @ [CR, LF] @ ''content-length: 13'' @ [CR, LF]"

text \<open>The same header lines without the line end of the last one.\<close>

definition ok_lines :: string where
  "ok_lines = ''HTTP/1.1 200 OK'' @ [CR, LF] @ ''content-length: 13''"

text \<open>The chunks among a sequence of events.\<close>

fun data_of :: "event list \<Rightarrow> string list" where
  "data_of [] = []"
| "data_of (Data d # es) = d # data_of es"
| "data_of (e # es) = data_of es"

text \<open>
  No promise returned by \<^verbatim>\<open>text()\<close> has been resolved, \<^verbatim>\<open>connection.end\<close> has
  not been called and no callback of it is waiting.
\<close>

definition unresolved :: "reader \<Rightarrow> bool" where
  "unresolved s = (finishing s = 0 \<and> End \<notin> set (calls s) \<and> list_all (\<lambda>t. t = None) (texts s))"

text \<open>
  An invariant of the reader under every event: the length is known exactly when
  the header phase is over; before that nothing else has happened; and as long as
  the body is shorter than a positive declared length, or the declared length is
  zero, nothing has been resolved.
\<close>

definition wf :: "reader \<Rightarrow> bool" where
  "wf s =
     ((headersRead s \<longleftrightarrow> contentLength s \<noteq> None) \<and>
      (\<not> headersRead s \<longrightarrow> body s = [] \<and> \<not> paused s \<and> unresolved s) \<and>
      (\<forall>n. contentLength s = Some n \<longrightarrow> n = 0 \<or> enat (length (body s)) < n \<longrightarrow> unresolved s))"


definition zero_response :: string where
  "zero_response = ''HTTP/1.1 200 OK'' @ [CR, LF] @ ''content-length: 0'' @ [CR, LF, CR, LF]"

text \<open>
  The wire format of a request as the specification words it: the request line
  \<^verbatim>\<open>METHOD SP path SP HTTP/1.1\<close>, a \<^verbatim>\<open>host\<close> header and an empty line, each ended
  by the line terminator \<open>eol\<close>.
\<close>

definition encode :: "string \<Rightarrow> string \<Rightarrow> string \<Rightarrow> string \<Rightarrow> string" where
  "encode eol method path host =
     method @ '' '' @ path @ '' HTTP/1.1'' @ eol @ ''host: '' @ host @ eol @ eol"


definition http_example :: url where
  "http_example = \<lparr>protocol = ''http:'', hostname = ''example.com'', port = [], pathname = ''/''\<rparr>"



section \<open>Properties\<close>

subsection \<open>The listener on concatenated input\<close>

lemma on_data_append:
  "on_data s (xs @ ys) = (case on_data s xs of Inl e \<Rightarrow> Inl e | Inr s' \<Rightarrow> on_data s' ys)"
  by (induction xs arbitrary: s) (auto split: sum.splits)

lemma on_chunks_concat: "on_chunks s ds = on_data s (concat ds)"
  by (induction ds arbitrary: s) (auto simp: on_data_append split: sum.splits)

lemma on_char_body:
  "headersRead s \<Longrightarrow>
   on_char s c =
     Inr (if body_complete s [c]
          then s\<lparr>body := body s @ [c], finishing := Suc (finishing s),
                 calls := calls s @ [End]\<rparr>
          else s\<lparr>body := body s @ [c]\<rparr>)"
  by (auto simp: on_char_def body_complete_def Let_def split: option.splits enat.splits)

lemma on_data_body:
  "headersRead s \<Longrightarrow>
   on_data s xs =
     Inr (if body_complete s xs
          then s\<lparr>body := body s @ xs, finishing := Suc (finishing s),
                 calls := calls s @ [End]\<rparr>
          else s\<lparr>body := body s @ xs\<rparr>)"
proof (induction xs arbitrary: s)
  case Nil
  then show ?case by (simp add: body_complete_def split: option.splits enat.splits)
next
  case (Cons c cs)
  show ?case
  proof (cases "body_complete s [c]")
    case True
    let ?s1 = "s\<lparr>body := body s @ [c], finishing := Suc (finishing s), calls := calls s @ [End]\<rparr>"
    have 1: "on_char s c = Inr ?s1" using Cons.prems True by (simp add: on_char_body)
    have 2: "headersRead ?s1" using Cons.prems by simp
    have 3: "\<not> body_complete ?s1 cs" using True by (auto simp: body_complete_def split: option.splits enat.splits)
    have 4: "body_complete s (c # cs)" using True by (auto simp: body_complete_def split: option.splits enat.splits)
    show ?thesis using 1 3 4 Cons.IH[OF 2] by simp
  next
    case False
    let ?s1 = "s\<lparr>body := body s @ [c]\<rparr>"
    have 1: "on_char s c = Inr ?s1" using Cons.prems False by (simp add: on_char_body)
    have 2: "headersRead ?s1" using Cons.prems by simp
    have 3: "body_complete ?s1 cs = body_complete s (c # cs)" using False by (auto simp: body_complete_def split: option.splits enat.splits)
    show ?thesis using 1 3 Cons.IH[OF 2] by simp
  qed
qed

subsection \<open>Occurrences of a sequence\<close>

lemma first_occurrence_None:
  "first_occurrence pat ys = None \<Longrightarrow> ys \<noteq> u @ pat @ v"
proof (induction ys arbitrary: u)
  case Nil
  then show ?case by (auto split: if_splits)
next
  case (Cons y ys)
  show ?case
  proof (cases u)
    case Nil
    with Cons.prems show ?thesis by (auto split: if_splits)
  next
    case (Cons a u')
    with Cons.prems Cons.IH[of u'] show ?thesis by (auto split: if_splits)
  qed
qed

lemma first_occurrence_short:
  "length zs < length pat \<Longrightarrow> first_occurrence pat zs = None"
  by (induction zs) auto

lemma first_occurrence_Some:
  "first_occurrence pat ys = Some i \<Longrightarrow>
   i + length pat \<le> length ys \<and> take (length pat) (drop i ys) = pat \<and>
   (pat \<noteq> [] \<longrightarrow> first_occurrence pat (take (i + length pat - 1) ys) = None)"
proof (induction ys arbitrary: i)
  case Nil
  then show ?case by (auto split: if_splits)
next
  case (Cons y ys)
  show ?case
  proof (cases "take (length pat) (y # ys) = pat")
    case True
    then have i: "i = 0" using Cons.prems by simp
    have "length (take (length pat) (y # ys)) = length pat" using True by simp
    then have a: "length pat \<le> length (y # ys)" by (simp add: min_def split: if_splits)
    have b: "pat \<noteq> [] \<Longrightarrow> first_occurrence pat (take (length pat - 1) (y # ys)) = None"
      by (rule first_occurrence_short) (cases pat; simp add: min_def)
    show ?thesis using i a b True by simp
  next
    case False
    then obtain j where j: "first_occurrence pat ys = Some j" "i = Suc j"
      using Cons.prems by auto
    have ne: "pat \<noteq> []" using False by auto
    from Cons.IH[OF j(1)] have ih: "j + length pat \<le> length ys"
      "take (length pat) (drop j ys) = pat"
      "first_occurrence pat (take (j + length pat - 1) ys) = None" using ne by auto
    define m where "m = j + length pat - 1"
    have m: "Suc j + length pat - 1 = Suc m" "length pat \<le> Suc m"
      using ne by (cases pat; simp add: m_def)+
    have "take (length pat) (y # take m ys) = take (length pat) (take (Suc m) (y # ys))"
      by simp
    also have "\<dots> = take (length pat) (y # ys)"
      using m(2) by (simp only: take_take min.absorb1)
    finally have t: "take (length pat) (y # take m ys) \<noteq> pat"
      using False by simp
    have "first_occurrence pat (take (Suc m) (y # ys)) = None"
      using t ih(3) by (simp add: m_def)
    then have "first_occurrence pat (take (Suc j + length pat - 1) (y # ys)) = None"
      using m(1) by simp
    then show ?thesis using j ih(1,2) by simp
  qed
qed

lemma first_occurrence_split:
  assumes "first_occurrence pat ys = Some i"
  shows "ys = take i ys @ pat @ drop (i + length pat) ys"
proof -
  from first_occurrence_Some[OF assms] have t: "take (length pat) (drop i ys) = pat" by simp
  have "take (length pat) (drop i ys) @ drop (length pat) (drop i ys) = drop i ys"
    by (rule append_take_drop_id)
  then have "drop i ys = pat @ drop (i + length pat) ys"
    using t by (simp add: add.commute)
  then have "take i ys @ drop i ys = take i ys @ pat @ drop (i + length pat) ys" by simp
  then show ?thesis by simp
qed

lemma first_occurrence_take:
  assumes "first_occurrence pat ys = None"
  shows "first_occurrence pat (take k ys) = None"
proof (cases "first_occurrence pat (take k ys)")
  case None
  then show ?thesis .
next
  case (Some j)
  from first_occurrence_split[OF Some]
  have "take k ys = take j (take k ys) @ pat @ drop (j + length pat) (take k ys)" .
  then have "take k ys @ drop k ys =
       (take j (take k ys) @ pat @ drop (j + length pat) (take k ys)) @ drop k ys" by simp
  then have "ys = take j (take k ys) @ pat @ (drop (j + length pat) (take k ys) @ drop k ys)"
    by simp
  with first_occurrence_None[OF assms] show ?thesis by blast
qed

lemma marker_split:
  assumes "first_occurrence [LF, CR] xs = Some i"
  shows "take (i + 2) xs = take (Suc i) xs @ [CR]"
    and "take (Suc i) xs \<noteq> []" and "last (take (Suc i) xs) = LF"
    and "first_occurrence [LF, CR] (take (Suc i) xs) = None"
proof -
  from first_occurrence_Some[OF assms]
  have len: "i + 2 \<le> length xs" and t: "take (Suc (Suc 0)) (drop i xs) = [LF, CR]"
    and none: "first_occurrence [LF, CR] (take (Suc i) xs) = None" by simp_all
  have i0: "i < length xs" and i1: "Suc i < length xs" using len by simp_all
  have "take (Suc (Suc 0)) (drop i xs) = [xs ! i, xs ! Suc i]"
    using i0 i1 by (simp add: take_Suc_conv_app_nth)
  then have n: "xs ! i = LF" "xs ! Suc i = CR" using t by simp_all
  have t1: "take (Suc i) xs = take i xs @ [LF]"
    using i0 n(1) by (simp add: take_Suc_conv_app_nth)
  have "take (Suc (Suc i)) xs = take (Suc i) xs @ [CR]"
    using i1 n(2) by (simp only: take_Suc_conv_app_nth)
  then show "take (i + 2) xs = take (Suc i) xs @ [CR]" by simp
  show "take (Suc i) xs \<noteq> []" using t1 by simp
  show "last (take (Suc i) xs) = LF" using t1 by simp
  show "first_occurrence [LF, CR] (take (Suc i) xs) = None" by (rule none)
qed

subsection \<open>The header phase\<close>

lemma on_char_header:
  "\<not> headersRead s \<Longrightarrow> \<not> (rawHeaders s \<noteq> [] \<and> last (rawHeaders s) = LF \<and> c = CR) \<Longrightarrow>
   on_char s c = Inr (s\<lparr>rawHeaders := rawHeaders s @ [c]\<rparr>)"
  by (auto simp: on_char_def slice_last_def bodyStartMarker_def)

lemma on_char_marker:
  "\<not> headersRead s \<Longrightarrow> rawHeaders s \<noteq> [] \<Longrightarrow> last (rawHeaders s) = LF \<Longrightarrow>
   on_char s CR =
     (case parseContentLength (rawHeaders s) of
        Inl e \<Rightarrow> Inl e
      | Inr n \<Rightarrow> Inr (s\<lparr>contentLength := Some n, headersRead := True, paused := True,
                       calls := calls s @ [Pause, OnHeaders]\<rparr>))"
  by (simp add: on_char_def slice_last_def bodyStartMarker_def)

lemma on_data_header:
  "\<not> headersRead s \<Longrightarrow> first_occurrence [LF, CR] (rawHeaders s @ xs) = None \<Longrightarrow>
   on_data s xs = Inr (s\<lparr>rawHeaders := rawHeaders s @ xs\<rparr>)"
proof (induction xs arbitrary: s)
  case Nil
  then show ?case by simp
next
  case (Cons c cs)
  have "\<not> (rawHeaders s \<noteq> [] \<and> last (rawHeaders s) = LF \<and> c = CR)"
  proof
    assume a: "rawHeaders s \<noteq> [] \<and> last (rawHeaders s) = LF \<and> c = CR"
    then have "butlast (rawHeaders s) @ [LF] = rawHeaders s"
      using append_butlast_last_id[of "rawHeaders s"] by simp
    then have "(butlast (rawHeaders s) @ [LF]) @ CR # cs = rawHeaders s @ c # cs"
      using a by simp
    then have "rawHeaders s @ c # cs = butlast (rawHeaders s) @ [LF, CR] @ cs"
      by simp
    with first_occurrence_None[OF Cons.prems(2)] show False by blast
  qed
  then have 1: "on_char s c = Inr (s\<lparr>rawHeaders := rawHeaders s @ [c]\<rparr>)"
    using Cons.prems(1) by (rule on_char_header[rotated])
  have 2: "\<not> headersRead (s\<lparr>rawHeaders := rawHeaders s @ [c]\<rparr>)" using Cons.prems(1) by simp
  have 3: "first_occurrence [LF, CR] (rawHeaders (s\<lparr>rawHeaders := rawHeaders s @ [c]\<rparr>) @ cs) = None"
    using Cons.prems(2) by simp
  show ?case using 1 Cons.IH[OF 2 3] by simp
qed

lemma on_data_recognise:
  assumes "\<not> headersRead s" and "rawHeaders s = []"
    and "first_occurrence [LF, CR] xs = Some i"
  shows "on_data s (take (i + 2) xs) =
     (case parseContentLength (take (Suc i) xs) of
        Inl e \<Rightarrow> Inl e
      | Inr n \<Rightarrow> Inr (recognised s (take (Suc i) xs) n))"
proof -
  note m = marker_split[OF assms(3)]
  let ?s1 = "s\<lparr>rawHeaders := rawHeaders s @ take (Suc i) xs\<rparr>"
  have 1: "on_data s (take (Suc i) xs) = Inr ?s1"
    using assms(1,2) m(4) by (intro on_data_header) simp_all
  have 2: "on_char ?s1 CR =
     (case parseContentLength (rawHeaders ?s1) of
        Inl e \<Rightarrow> Inl e
      | Inr n \<Rightarrow> Inr (?s1\<lparr>contentLength := Some n, headersRead := True, paused := True,
                       calls := calls ?s1 @ [Pause, OnHeaders]\<rparr>))"
    using assms(1,2) m(2,3) by (intro on_char_marker) simp_all
  have 3: "rawHeaders ?s1 = take (Suc i) xs" using assms(2) by simp
  have 4: "?s1\<lparr>contentLength := Some n, headersRead := True, paused := True,
                 calls := calls ?s1 @ [Pause, OnHeaders]\<rparr> = recognised s (take (Suc i) xs) n" for n
    using assms(2) by (simp add: recognised_def)
  have "on_data s (take (i + 2) xs) = on_data ?s1 [CR]"
    using 1 by (simp only: m(1) on_data_append sum.case)
  also have "\<dots> = on_char ?s1 CR"
    by (simp split: sum.splits)
  also have "\<dots> = (case parseContentLength (take (Suc i) xs) of
        Inl e \<Rightarrow> Inl e
      | Inr n \<Rightarrow> Inr (recognised s (take (Suc i) xs) n))"
    by (simp only: 2 3 4)
  finally show ?thesis .
qed

lemma on_data_response:
  assumes "\<not> headersRead s" and "rawHeaders s = []"
    and "first_occurrence [LF, CR] xs = Some i"
    and "i + 2 \<le> k"
  shows "on_data s (take k xs) =
     (case parseContentLength (take (Suc i) xs) of
        Inl e \<Rightarrow> Inl e
      | Inr n \<Rightarrow> on_data (recognised s (take (Suc i) xs) n) (drop (i + 2) (take k xs)))"
proof -
  define rest where "rest = drop (i + 2) (take k xs)"
  have a: "take (i + 2) (take k xs) = take (i + 2) xs"
    using assms(4) by (simp add: min_def)
  have "take (i + 2) (take k xs) @ drop (i + 2) (take k xs) = take k xs"
    by (rule append_take_drop_id)
  then have eq: "take k xs = take (i + 2) xs @ rest"
    by (simp only: a rest_def)
  show ?thesis
  proof (cases "parseContentLength (take (Suc i) xs)")
    case (Inl e)
    then have "on_data s (take (i + 2) xs) = Inl e"
      using on_data_recognise[OF assms(1-3)] by simp
    then have "on_data s (take (i + 2) xs @ rest) = Inl e"
      by (simp add: on_data_append)
    then have "on_data s (take k xs) = Inl e"
      by (simp only: eq)
    then show ?thesis by (simp add: Inl)
  next
    case (Inr n)
    then have "on_data s (take (i + 2) xs) = Inr (recognised s (take (Suc i) xs) n)"
      using on_data_recognise[OF assms(1-3)] by simp
    then have "on_data s (take (i + 2) xs @ rest) =
        on_data (recognised s (take (Suc i) xs) n) rest"
      by (simp add: on_data_append)
    then have "on_data s (take k xs) = on_data (recognised s (take (Suc i) xs) n) rest"
      by (simp only: eq)
    then show ?thesis by (simp add: Inr rest_def)
  qed
qed

lemma headersRead_recognised: "headersRead (recognised s hs n)"
  by (simp add: recognised_def)

lemma notified_recognised: "notified (on_data (recognised s hs n) ys)"
  by (simp add: notified_def on_data_body headersRead_recognised) (simp add: recognised_def)

lemma marker_in_terminator:
  "first_occurrence [LF, CR] (hs @ [CR, LF]) = None \<Longrightarrow>
   first_occurrence [LF, CR] (hs @ [CR, LF, CR, LF] @ b) = Some (Suc (length hs))"
proof (induction hs)
  case Nil
  then show ?case by simp
next
  case (Cons h hs)
  have 1: "take 2 (h # hs @ [CR, LF]) \<noteq> [LF, CR]"
    and 2: "first_occurrence [LF, CR] (hs @ [CR, LF]) = None"
    using Cons.prems by (auto split: if_splits)
  have "take 2 (h # hs @ [CR, LF, CR, LF] @ b) = take 2 (h # hs @ [CR, LF])"
    by (cases hs) (simp_all add: numeral_2_eq_2)
  then have "take 2 (h # hs @ [CR, LF, CR, LF] @ b) \<noteq> [LF, CR]" using 1 by simp
  then show ?case using Cons.IH[OF 2] by simp
qed

subsection \<open>Whole streams\<close>

lemma on_data_stream:
  assumes "first_occurrence [LF, CR] xs = Some i"
    and "parseContentLength (take (Suc i) xs) = Inr n"
  shows "on_data readResponse xs =
     on_data (recognised readResponse (take (Suc i) xs) n) (drop (i + 2) xs)"
proof -
  have init: "\<not> headersRead readResponse" "rawHeaders readResponse = []"
    by (simp_all add: readResponse_def)
  from first_occurrence_Some[OF assms(1)] have "i + 2 \<le> length xs" by simp
  from on_data_response[OF init assms(1) this] show ?thesis
    by (simp add: assms(2))
qed


subsection \<open>Events\<close>

lemma wf_readResponse: "wf readResponse"
  by (simp add: wf_def readResponse_def unresolved_def)

lemma run_append:
  "run s (es @ es') = (case run s es of Inl x \<Rightarrow> Inl x | Inr s' \<Rightarrow> run s' es')"
  by (induction es arbitrary: s) (auto split: sum.splits)

lemma on_data_header_cases:
  "\<not> headersRead s \<Longrightarrow> on_data s xs = Inr s' \<Longrightarrow>
   s' = s\<lparr>rawHeaders := rawHeaders s @ xs\<rparr> \<or>
   (\<exists>hs n zs. on_data (recognised s hs n) zs = Inr s')"
proof (induction xs arbitrary: s)
  case Nil
  then show ?case by simp
next
  case (Cons c cs)
  show ?case
  proof (cases "rawHeaders s \<noteq> [] \<and> last (rawHeaders s) = LF \<and> c = CR")
    case True
    then have "on_char s c = (case parseContentLength (rawHeaders s) of
        Inl e \<Rightarrow> Inl e
      | Inr n \<Rightarrow> Inr (recognised s (rawHeaders s) n))"
      using on_char_marker[of s] Cons.prems(1) by (simp add: recognised_def split: sum.splits)
    then show ?thesis using Cons.prems(2) by (auto split: sum.splits)
  next
    case False
    let ?s1 = "s\<lparr>rawHeaders := rawHeaders s @ [c]\<rparr>"
    have 1: "on_char s c = Inr ?s1" using on_char_header[OF Cons.prems(1) False] .
    then have 2: "on_data ?s1 cs = Inr s'" using Cons.prems(2) by simp
    have 3: "\<not> headersRead ?s1" using Cons.prems(1) by simp
    from Cons.IH[OF 3 2] show ?thesis
    proof
      assume "s' = ?s1\<lparr>rawHeaders := rawHeaders ?s1 @ cs\<rparr>"
      then show ?thesis by simp
    next
      assume "\<exists>hs n zs. on_data (recognised ?s1 hs n) zs = Inr s'"
      moreover have "recognised ?s1 hs n = recognised s hs n" for hs n
        by (simp add: recognised_def)
      ultimately show ?thesis by simp
    qed
  qed
qed

lemma wf_on_data_body:
  assumes "wf s" and "headersRead s" and "on_data s xs = Inr s'"
  shows "wf s'"
proof -
  obtain n where n: "contentLength s = Some n" using assms(1,2) by (auto simp: wf_def)
  show ?thesis
  proof (cases n)
    case (enat k)
    then show ?thesis
      using assms n
      by (auto simp: on_data_body wf_def unresolved_def body_complete_def zero_enat_def
          split: if_splits)
  next
    case infinity
    then show ?thesis
      using assms n
      by (auto simp: on_data_body wf_def unresolved_def body_complete_def)
  qed
qed

lemma wf_recognised: "wf s \<Longrightarrow> \<not> headersRead s \<Longrightarrow> wf (recognised s hs n)"
  by (auto simp: wf_def recognised_def unresolved_def)

lemma wf_on_data:
  assumes "wf s" and "\<not> paused s" and "on_data s xs = Inr s'"
  shows "wf s'"
proof (cases "headersRead s")
  case True
  then show ?thesis using assms wf_on_data_body by blast
next
  case False
  from on_data_header_cases[OF False assms(3)] show ?thesis
  proof
    assume "s' = s\<lparr>rawHeaders := rawHeaders s @ xs\<rparr>"
    then show ?thesis using assms(1) by (simp add: wf_def unresolved_def)
  next
    assume "\<exists>hs n zs. on_data (recognised s hs n) zs = Inr s'"
    then obtain hs n zs where "on_data (recognised s hs n) zs = Inr s'" by blast
    then show ?thesis
      using wf_on_data_body[OF wf_recognised[OF assms(1) False] headersRead_recognised] by blast
  qed
qed

lemma wf_text_call:
  assumes "wf s" and "headersRead s" and "text_call s = Inr s'"
  shows "wf s'"
proof -
  let ?s1 = "s\<lparr>paused := False, calls := calls s @ [Resume], held := [],
          texts := texts s @ [None], onBody := Some (length (texts s))\<rparr>"
  have 1: "wf ?s1" using assms(1,2) by (auto simp: wf_def unresolved_def)
  have 2: "headersRead ?s1" using assms(2) by simp
  have 3: "on_data ?s1 (concat (held s)) = Inr s'"
    using assms(3) by (simp add: text_call_def on_chunks_concat)
  show ?thesis using wf_on_data_body[OF 1 2 3] .
qed

lemma wf_end_callback:
  assumes "wf s" and "finishing s \<noteq> 0"
  shows "wf (end_callback (s\<lparr>finishing := finishing s - 1\<rparr>))"
  using assms
  by (auto simp: wf_def unresolved_def end_callback_def split: option.splits)

lemma wf_on_event:
  assumes "wf s" and "on_event s e = Inr s'"
  shows "wf s'"
proof (cases e)
  case (Data d)
  show ?thesis
  proof (cases "paused s")
    case True
    then have "s' = s\<lparr>held := held s @ [d]\<rparr>" using assms(2) Data by simp
    then show ?thesis using assms(1) by (simp add: wf_def unresolved_def)
  next
    case False
    then show ?thesis using assms Data wf_on_data by simp
  qed
next
  case Text
  then show ?thesis using assms wf_text_call by (auto split: if_splits)
next
  case Finish
  then show ?thesis using assms wf_end_callback by (auto split: if_splits)
next
  case Close
  then show ?thesis using assms by simp
qed

lemma wf_run: "wf s \<Longrightarrow> run s es = Inr s' \<Longrightarrow> wf s'"
proof (induction es arbitrary: s)
  case Nil
  then show ?case by simp
next
  case (Cons e es)
  then show ?case by (auto split: sum.splits dest: wf_on_event)
qed

lemma end_callback_fields:
  "headersRead (end_callback s) = headersRead s" "contentLength (end_callback s) = contentLength s"
  "body (end_callback s) = body s" "held (end_callback s) = held s"
  "calls (end_callback s) = calls s" "paused (end_callback s) = paused s"
  "finishing (end_callback s) = finishing s"
  by (simp_all add: end_callback_def split: option.splits)

lemma text_call_body:
  assumes "headersRead s"
  shows "\<exists>s'. text_call s = Inr s' \<and> headersRead s' \<and> contentLength s' = contentLength s \<and>
     \<not> paused s' \<and> held s' = [] \<and> body s' = body s @ concat (held s) \<and>
     Resume \<in> set (calls s')"
  using assms by (simp add: text_call_def on_chunks_concat on_data_body)

lemma on_event_after_headers:
  assumes "headersRead s"
  shows "\<exists>s'. on_event s e = Inr s' \<and> headersRead s' \<and> contentLength s' = contentLength s"
proof (cases e)
  case (Data d)
  then show ?thesis using assms by (simp add: on_data_body)
next
  case Text
  then show ?thesis using assms text_call_body[OF assms] by auto
next
  case Finish
  then show ?thesis using assms by (simp add: end_callback_fields)
next
  case Close
  then show ?thesis using assms by simp
qed

lemma run_after_headers:
  "headersRead s \<Longrightarrow>
   \<exists>s'. run s es = Inr s' \<and> headersRead s' \<and> contentLength s' = contentLength s"
proof (induction es arbitrary: s)
  case Nil
  then show ?case by simp
next
  case (Cons e es)
  from on_event_after_headers[OF Cons.prems, of e] obtain s1 where
    1: "on_event s e = Inr s1" "headersRead s1" "contentLength s1 = contentLength s" by blast
  from Cons.IH[OF 1(2)] 1 show ?case by auto
qed

lemma quiet_run:
  "wf s \<Longrightarrow> contentLength s = Some n \<Longrightarrow>
   length (body s) + length (concat (held s)) < n \<Longrightarrow> data_of es = [] \<Longrightarrow>
   \<exists>s'. run s es = Inr s' \<and> length (body s') < n \<and> unresolved s'"
proof (induction es arbitrary: s)
  case Nil
  then show ?case by (simp add: wf_def)
next
  case (Cons e es)
  have hr: "headersRead s" using Cons.prems(1,2) by (simp add: wf_def)
  have un: "unresolved s" using Cons.prems(1,2,3) by (simp add: wf_def)
  have "\<exists>s1. on_event s e = Inr s1 \<and> contentLength s1 = Some n \<and>
      length (body s1) + length (concat (held s1)) < n"
  proof (cases e)
    case (Data d)
    then show ?thesis using Cons.prems(4) by simp
  next
    case Text
    then show ?thesis using hr Cons.prems(2,3) text_call_body[OF hr] by auto
  next
    case Finish
    then show ?thesis using un Cons.prems(2,3) by (simp add: unresolved_def)
  next
    case Close
    then show ?thesis using Cons.prems(2,3) by simp
  qed
  then obtain s1 where 1: "on_event s e = Inr s1" "contentLength s1 = Some n"
    "length (body s1) + length (concat (held s1)) < n" by blast
  have 2: "wf s1" using wf_on_event[OF Cons.prems(1) 1(1)] .
  have 3: "data_of es = []" using Cons.prems(4) by (cases e) simp_all
  from Cons.IH[OF 2 1(2,3) 3] 1(1) show ?case by simp
qed

lemma paused_run:
  "paused s \<Longrightarrow> Text \<notin> set es \<Longrightarrow>
   \<exists>s'. run s es = Inr s' \<and> paused s' \<and> headersRead s' = headersRead s \<and>
     body s' = body s \<and> held s' = held s @ data_of es \<and> calls s' = calls s"
proof (induction es arbitrary: s)
  case Nil
  then show ?case by simp
next
  case (Cons e es)
  have "\<exists>s1. on_event s e = Inr s1 \<and> paused s1 \<and> headersRead s1 = headersRead s \<and>
     body s1 = body s \<and> held s1 @ data_of es = held s @ data_of (e # es) \<and> calls s1 = calls s"
    using Cons.prems by (cases e) (simp_all add: end_callback_fields)
  then obtain s1 where 1: "on_event s e = Inr s1" "paused s1" "headersRead s1 = headersRead s"
    "body s1 = body s" "held s1 @ data_of es = held s @ data_of (e # es)" "calls s1 = calls s"
    by blast
  have 2: "Text \<notin> set es" using Cons.prems(2) by simp
  from Cons.IH[OF 1(2) 2] 1 show ?case by auto
qed

lemma run_header_phase:
  "\<not> headersRead s \<Longrightarrow> \<not> paused s \<Longrightarrow>
   first_occurrence [LF, CR] (rawHeaders s @ concat ds) = None \<Longrightarrow>
   run s (map Data ds) = Inr (s\<lparr>rawHeaders := rawHeaders s @ concat ds\<rparr>)"
proof (induction ds arbitrary: s)
  case Nil
  then show ?case by simp
next
  case (Cons d ds)
  let ?s1 = "s\<lparr>rawHeaders := rawHeaders s @ d\<rparr>"
  have "first_occurrence [LF, CR] (take (length (rawHeaders s @ d)) (rawHeaders s @ concat (d # ds))) = None"
    using Cons.prems(3) by (rule first_occurrence_take)
  then have "first_occurrence [LF, CR] (rawHeaders s @ d) = None" by simp
  then have 1: "on_data s d = Inr ?s1" using Cons.prems(1) by (rule on_data_header[rotated])
  have 2: "\<not> headersRead ?s1" "\<not> paused ?s1" using Cons.prems by simp_all
  have 3: "first_occurrence [LF, CR] (rawHeaders ?s1 @ concat ds) = None"
    using Cons.prems(3) by simp
  from Cons.IH[OF 2 3] 1 Cons.prems(2) show ?case by simp
qed

subsection \<open>A connection that holds chunks back\<close>










subsection \<open>The content-length pattern\<close>





subsection \<open>Claims\<close>

subsubsection \<open>C1\<close>

text \<open>
  C1, as amended. The reader does not wait for CR LF CR LF: it leaves the header
  phase at the first occurrence of the two characters LF CR, on the CR. After
  \<open>k\<close> characters of a stream the headers-ready notification has been delivered
  exactly when the first LF CR of the stream lies within those \<open>k\<close> characters and
  the text before its CR matches the content-length pattern. When the header
  lines and their last line end contain no LF CR, the first LF CR of the stream
  is the middle of CR LF CR LF, so the notification comes on the third character
  of the terminator.
\<close>

theorem headers_ready_at_first_LF_CR:
  "(notified (on_data readResponse (take k xs)) \<longleftrightarrow>
      (\<exists>i n. first_occurrence [LF, CR] xs = Some i \<and> i + 2 \<le> k \<and>
             parseContentLength (take (Suc i) xs) = Inr n)) \<and>
   (first_occurrence [LF, CR] (hs @ [CR, LF]) = None \<longrightarrow>
      first_occurrence [LF, CR] (hs @ [CR, LF, CR, LF] @ b) = Some (Suc (length hs)))"
proof
  show "notified (on_data readResponse (take k xs)) \<longleftrightarrow>
      (\<exists>i n. first_occurrence [LF, CR] xs = Some i \<and> i + 2 \<le> k \<and>
             parseContentLength (take (Suc i) xs) = Inr n)"
  proof (cases "first_occurrence [LF, CR] xs")
    case None
    have "on_data readResponse (take k xs) =
        Inr (readResponse\<lparr>rawHeaders := rawHeaders readResponse @ take k xs\<rparr>)"
      by (rule on_data_header) (simp_all add: readResponse_def first_occurrence_take[OF None])
    then show ?thesis using None by (simp add: notified_def readResponse_def)
  next
    case (Some i)
    have init: "\<not> headersRead readResponse" "rawHeaders readResponse = []"
      by (simp_all add: readResponse_def)
    show ?thesis
    proof (cases "i + 2 \<le> k")
      case True
      show ?thesis
        using Some True
        by (simp add: on_data_response[OF init Some True] notified_recognised split: sum.splits)
          (simp add: notified_def)
    next
      case False
      then have "take k xs = take k (take (Suc i) xs)" by (simp add: min.absorb1)
      then have "first_occurrence [LF, CR] (take k xs) = None"
        using first_occurrence_take[OF marker_split(4)[OF Some], of k] by simp
      then have "on_data readResponse (take k xs) =
          Inr (readResponse\<lparr>rawHeaders := rawHeaders readResponse @ take k xs\<rparr>)"
        by (intro on_data_header) (simp_all add: readResponse_def)
      then show ?thesis using Some False by (simp add: notified_def readResponse_def)
    qed
  qed
  show "first_occurrence [LF, CR] (hs @ [CR, LF]) = None \<longrightarrow>
      first_occurrence [LF, CR] (hs @ [CR, LF, CR, LF] @ b) = Some (Suc (length hs))"
    using marker_in_terminator[of hs b] by blast
qed

theorem headers_ready_at_first_LF_CR_witness:
  "first_occurrence [LF, CR] (ok_lines @ [CR, LF]) = None \<and>
   first_occurrence [LF, CR] (ok_lines @ [CR, LF, CR, LF] @ ''Hello, world!'') = Some 36 \<and>
   notified (on_data readResponse (take 38 (ok_lines @ [CR, LF, CR, LF] @ ''Hello, world!''))) \<and>
   \<not> notified (on_data readResponse (take 37 (ok_lines @ [CR, LF, CR, LF] @ ''Hello, world!'')))"
proof -
  let ?xs = "ok_lines @ [CR, LF, CR, LF] @ ''Hello, world!''"
  have n: "first_occurrence [LF, CR] (ok_lines @ [CR, LF]) = None" by code_simp
  have l: "Suc (length ok_lines) = 36" by (simp add: ok_lines_def)
  have a: "first_occurrence [LF, CR] ?xs = Some 36"
    using n headers_ready_at_first_LF_CR[of 0 "[]" ok_lines "''Hello, world!''"]
    by (simp only: l)
  have b: "parseContentLength (take (Suc 36) ?xs) = Inr 13" by code_simp
  show ?thesis
    using n a b headers_ready_at_first_LF_CR[of 38 ?xs "[]" "[]"]
      headers_ready_at_first_LF_CR[of 37 ?xs "[]" "[]"]
    by simp
qed

text \<open>
  C1 as stated fails: after the header block and a single CR the notification has
  been delivered, although CR LF CR LF has not occurred in the stream.
\<close>

theorem headers_ready_before_CRLFCRLF:
  "notified (on_data readResponse (ok_head @ [CR])) \<and>
   first_occurrence [CR, LF, CR, LF] (ok_head @ [CR]) = None"
  by code_simp

subsubsection \<open>C2\<close>

text \<open>
  C2. The body that \<^verbatim>\<open>text()\<close> resolves with is not the body of the response.
  The reader leaves the header phase on the CR of the empty line, so the LF that
  ends the empty line is the first character of \<open>body\<close>, and the listener keeps
  appending after the declared length is reached. For the response
  \<^verbatim>\<open>HTTP/1.1 200 OK\r\ncontent-length: 13\r\n\r\nHello, world!\<close>, delivered in the
  three chunks of the scenario with \<^verbatim>\<open>text()\<close> called once the headers are ready,
  the promise resolves with LF followed by \<^verbatim>\<open>Hello, world!\<close>, fourteen
  characters.
\<close>

theorem hello_world_text:
  "run readResponse
     [Data ''HTTP/1.1 200'',
      Data ('' OK'' @ [CR, LF] @ ''content-length: 13'' @ [CR, LF, CR, LF]),
      Text, Data ''Hello, world!'', Finish] =
     Inr \<lparr>contentLength = Some 13, onBody = Some 0, rawHeaders = ok_head,
          body = [LF] @ ''Hello, world!'', headersRead = True,
          calls = [Pause, OnHeaders, Resume, End], paused = False, held = [],
          finishing = 0, texts = [Some ([LF] @ ''Hello, world!'')]\<rparr>"
  by code_simp

subsubsection \<open>C3\<close>



subsubsection \<open>C4\<close>

text \<open>
  C4, as amended. A declared length of zero never completes the body: from any
  point at which content-length 0 has been parsed, whatever happens next, the
  reader does not throw, \<^verbatim>\<open>connection.end\<close> is never called and no promise
  returned by \<^verbatim>\<open>text()\<close> is resolved. The test for completion runs only after a
  character has been appended to the body.
\<close>

theorem zero_length_body_never_resolves:
  assumes "run readResponse es = Inr s" and "contentLength s = Some 0"
  shows "\<exists>s'. run readResponse (es @ es') = Inr s' \<and> contentLength s' = Some 0 \<and> unresolved s'"
proof -
  have w: "wf s" using wf_run[OF wf_readResponse assms(1)] .
  then have "headersRead s" using assms(2) by (simp add: wf_def)
  from run_after_headers[OF this, of es'] obtain s' where
    s': "run s es' = Inr s'" "contentLength s' = Some 0" using assms(2) by auto
  have "wf s'" using wf_run[OF w s'(1)] .
  then have "unresolved s'" using s'(2) by (simp add: wf_def)
  then show ?thesis using s' assms(1) by (simp add: run_append)
qed

theorem zero_length_body_never_resolves_witness:
  "\<exists>s'. run readResponse ([Data zero_response, Text] @ [Data ''late'', Finish, Close]) = Inr s' \<and>
        contentLength s' = Some 0 \<and> unresolved s'"
proof -
  let ?s = "\<lparr>contentLength = Some 0, onBody = Some 0,
          rawHeaders = ''HTTP/1.1 200 OK'' @ [CR, LF] @ ''content-length: 0'' @ [CR, LF],
          body = [LF], headersRead = True, calls = [Pause, OnHeaders, Resume],
          paused = False, held = [], finishing = 0, texts = [None]\<rparr>"
  have a: "run readResponse [Data zero_response, Text] = Inr ?s" by code_simp
  have b: "contentLength ?s = Some 0" by simp
  from zero_length_body_never_resolves[OF a b] show ?thesis .
qed

text \<open>
  C4 as stated fails: after the whole response with content-length 0 has been
  delivered and \<^verbatim>\<open>text()\<close> has been called, the promise is pending.
\<close>

theorem zero_length_body_pending:
  "run readResponse [Data zero_response, Text, Finish] =
     Inr \<lparr>contentLength = Some 0, onBody = Some 0,
          rawHeaders = ''HTTP/1.1 200 OK'' @ [CR, LF] @ ''content-length: 0'' @ [CR, LF],
          body = [LF], headersRead = True, calls = [Pause, OnHeaders, Resume],
          paused = False, held = [], finishing = 0, texts = [None]\<rparr>"
  by code_simp

subsubsection \<open>C5\<close>




subsubsection \<open>C6\<close>




subsubsection \<open>C7\<close>

text \<open>
  C7, as amended. The reader does not observe the closing of the connection. If
  fewer characters than declared have been delivered when the peer closes, the
  body stays shorter than declared and nothing is resolved, whatever the caller
  does afterwards; there is no rejection.
\<close>

theorem close_leaves_body_pending:
  assumes "run readResponse es = Inr s" and "contentLength s = Some n"
    and "length (body s) + length (concat (held s)) < n"
    and "data_of es' = []"
  shows "\<exists>s'. run readResponse (es @ Close # es') = Inr s' \<and> length (body s') < n \<and>
     unresolved s'"
proof -
  have w: "wf s" using wf_run[OF wf_readResponse assms(1)] .
  have d: "data_of (Close # es') = []" using assms(4) by simp
  from quiet_run[OF w assms(2,3) d] show ?thesis
    using assms(1) by (simp only: run_append sum.case)
qed

theorem close_leaves_body_pending_witness:
  "\<exists>s'. run readResponse ([Data (ok_head @ [CR, LF]), Text, Data ''Hello''] @ Close # [Finish, Text]) = Inr s' \<and>
        length (body s') < 13 \<and> unresolved s'"
proof -
  let ?s = "\<lparr>contentLength = Some 13, onBody = Some 0, rawHeaders = ok_head,
          body = [LF] @ ''Hello'', headersRead = True, calls = [Pause, OnHeaders, Resume],
          paused = False, held = [], finishing = 0, texts = [None]\<rparr>"
  have a: "run readResponse [Data (ok_head @ [CR, LF]), Text, Data ''Hello''] = Inr ?s"
    by code_simp
  have b: "contentLength ?s = Some (enat 13)" by (simp add: numeral_eq_enat)
  have c: "length (body ?s) + length (concat (held ?s)) < 13" by simp
  have d: "data_of [Finish, Text] = []" by simp
  from close_leaves_body_pending[OF a b c d] show ?thesis .
qed

text \<open>
  C7 as stated fails: five of thirteen characters, then the close; the promise is
  pending and no error has been raised.
\<close>

theorem short_body_then_close_pending:
  "run readResponse [Data (ok_head @ [CR, LF]), Text, Data ''Hello'', Close, Finish] =
     Inr \<lparr>contentLength = Some 13, onBody = Some 0, rawHeaders = ok_head,
          body = [LF] @ ''Hello'', headersRead = True, calls = [Pause, OnHeaders, Resume],
          paused = False, held = [], finishing = 0, texts = [None]\<rparr>"
  by code_simp

subsubsection \<open>C8\<close>

text \<open>
  C8, as amended. When a chunk carries the CR on which the header phase ends,
  after any number of chunks of header text, the reader pauses the connection
  before it calls \<^verbatim>\<open>onHeaders\<close>, and appends the rest of that chunk to the body at
  once. As long as \<^verbatim>\<open>text()\<close> is not called the connection
  stays paused, \<^verbatim>\<open>resume\<close> is not called, later chunks are held back and the body
  does not grow; \<^verbatim>\<open>text()\<close> resumes the connection and the chunks held back reach
  the body.
\<close>

theorem pause_until_text:
  assumes "first_occurrence [LF, CR] (concat ds @ d) = Some i"
    and "length (concat ds) < i + 2"
    and "parseContentLength (take (Suc i) (concat ds @ d)) = Inr n"
    and "Text \<notin> set es"
  shows "\<exists>s s'. run readResponse (map Data ds @ Data d # es) = Inr s \<and>
     take 2 (calls s) = [Pause, OnHeaders] \<and> Resume \<notin> set (calls s) \<and> paused s \<and>
     body s = drop (i + 2 - length (concat ds)) d \<and> held s = data_of es \<and>
     on_event s Text = Inr s' \<and> Resume \<in> set (calls s') \<and> \<not> paused s' \<and>
     body s' = drop (i + 2 - length (concat ds)) d @ concat (data_of es)"
proof -
  let ?xs = "concat ds @ d"
  let ?r = "recognised readResponse (take (Suc i) ?xs) n"
  let ?p = "readResponse\<lparr>rawHeaders := rawHeaders readResponse @ concat ds\<rparr>"
  have dr: "drop (i + 2) ?xs = drop (i + 2 - length (concat ds)) d"
    using assms(2) by simp
  obtain s0 where s0: "on_data ?r (drop (i + 2) ?xs) = Inr s0"
    by (simp add: on_data_body headersRead_recognised)
  then have f0: "paused s0" "headersRead s0" "body s0 = drop (i + 2) ?xs" "held s0 = []"
    "take 2 (calls s0) = [Pause, OnHeaders]" "Resume \<notin> set (calls s0)"
    by (auto simp: on_data_body headersRead_recognised recognised_def readResponse_def
        split: if_splits)
  have "take (length (concat ds)) (take (Suc i) ?xs) = concat ds"
    using assms(2) by (simp add: min_def)
  then have none: "first_occurrence [LF, CR] (concat ds) = None"
    using first_occurrence_take[OF marker_split(4)[OF assms(1)], of "length (concat ds)"]
    by simp
  have p: "run readResponse (map Data ds) = Inr ?p"
    by (rule run_header_phase) (simp_all add: readResponse_def none)
  have "on_data readResponse (concat ds) = Inr ?p"
    by (rule on_data_header) (simp_all add: readResponse_def none)
  then have "on_data readResponse ?xs = on_data ?p d"
    by (simp add: on_data_append)
  then have e0: "on_event ?p (Data d) = Inr s0"
    using s0 on_data_stream[OF assms(1,3)] by (simp add: readResponse_def)
  from paused_run[OF f0(1) assms(4)] obtain s where
    s: "run s0 es = Inr s" "paused s" "headersRead s = headersRead s0" "body s = body s0"
       "held s = held s0 @ data_of es" "calls s = calls s0" by blast
  have hr: "headersRead s" using s(3) f0(2) by simp
  from text_call_body[OF hr] obtain s' where
    s': "text_call s = Inr s'" "\<not> paused s'" "body s' = body s @ concat (held s)"
      "Resume \<in> set (calls s')" by blast
  have "run readResponse (map Data ds @ Data d # es) = Inr s"
    using p e0 s(1) by (simp add: run_append)
  moreover have "on_event s Text = Inr s'" using hr s'(1) by simp
  ultimately show ?thesis using s f0 s' dr by auto
qed

theorem pause_until_text_witness:
  "\<exists>s s'. run readResponse (map Data [''HTTP/1.1 200'', '' OK'' @ [CR, LF] @ ''content-le''] @
              Data (''ngth: 13'' @ [CR, LF, CR, LF] @ ''Hel'') # [Data ''lo'', Close]) = Inr s \<and>
     take 2 (calls s) = [Pause, OnHeaders] \<and> Resume \<notin> set (calls s) \<and> paused s \<and>
     body s = [LF] @ ''Hel'' \<and> held s = [''lo''] \<and>
     on_event s Text = Inr s' \<and> Resume \<in> set (calls s') \<and> \<not> paused s' \<and>
     body s' = ([LF] @ ''Hel'') @ concat [''lo'']"
proof -
  let ?ds = "[''HTTP/1.1 200'', '' OK'' @ [CR, LF] @ ''content-le'']"
  let ?d = "''ngth: 13'' @ [CR, LF, CR, LF] @ ''Hel''"
  have a: "first_occurrence [LF, CR] (concat ?ds @ ?d) = Some 36" by code_simp
  have l: "length (concat ?ds) < 36 + 2" by simp
  have b: "parseContentLength (take (Suc 36) (concat ?ds @ ?d)) = Inr 13" by code_simp
  have c: "Text \<notin> set [Data ''lo'', Close]" by simp
  have d: "drop (36 + 2 - length (concat ?ds)) ?d = [LF] @ ''Hel''" by code_simp
  have e: "data_of [Data ''lo'', Close] = [''lo'']" by simp
  from pause_until_text[OF a l b c] show ?thesis by (simp only: d e)
qed

text \<open>
  C8 as stated fails: a response delivered in one chunk is in the body, and
  \<^verbatim>\<open>connection.end\<close> has been called, before \<^verbatim>\<open>text()\<close> is called.
\<close>

theorem body_buffered_before_text:
  "run readResponse [Data (ok_head @ [CR, LF] @ ''Hello, world!'')] =
     Inr \<lparr>contentLength = Some 13, onBody = None, rawHeaders = ok_head,
          body = [LF] @ ''Hello, world!'', headersRead = True,
          calls = [Pause, OnHeaders, End], paused = True, held = [], finishing = 1,
          texts = []\<rparr>"
  by code_simp

subsubsection \<open>C9\<close>

text \<open>
  C9, as amended. When the URL is accepted, its host resolves and the connection
  is established, the request written is the request line with method GET and
  the URL's path, the \<^verbatim>\<open>host\<close> header with the URL's host name and an empty
  line, each ended by a single LF.
\<close>

theorem request_lines_end_with_LF:
  assumes "URL urlString = Some u" and "lookup (hostname u) = Some address"
  shows "fst (fetch URL lookup True urlString) =
     [Lookup (hostname u),
      CreateConnection (if port u = [] then PortNumber 80 else PortString (port u)) address,
      Write (encode [LF] ''GET'' (pathname u) (hostname u)),
      ReadResponse]"
  using assms by (simp add: fetch_def request_def encode_def)

theorem request_lines_end_with_LF_witness:
  "fst (fetch [''http://example.com'' \<mapsto> http_example] [''example.com'' \<mapsto> ''93.184.216.34''] True
         ''http://example.com'') =
     [Lookup ''example.com'', CreateConnection (PortNumber 80) ''93.184.216.34'',
      Write (''GET / HTTP/1.1'' @ [LF] @ ''host: example.com'' @ [LF, LF]),
      ReadResponse]"
proof -
  have a: "[''http://example.com'' \<mapsto> http_example] ''http://example.com'' = Some http_example"
    by simp
  have b: "[''example.com'' \<mapsto> ''93.184.216.34''] (hostname http_example) = Some ''93.184.216.34''"
    by (simp add: http_example_def)
  from request_lines_end_with_LF[of "[''http://example.com'' \<mapsto> http_example]"
      "''http://example.com''" http_example "[''example.com'' \<mapsto> ''93.184.216.34'']"
      "''93.184.216.34''", OF a b]
  show ?thesis
    by (simp add: http_example_def encode_def)
qed

text \<open>
  C9 as stated fails: the request written for \<^verbatim>\<open>http://example.com\<close> is not the one
  with CR LF line ends.
\<close>

theorem request_is_not_CRLF:
  "fst (fetch [''http://example.com'' \<mapsto> http_example] [''example.com'' \<mapsto> ''93.184.216.34''] True
         ''http://example.com'') ! 2 =
     Write (''GET / HTTP/1.1'' @ [LF] @ ''host: example.com'' @ [LF, LF]) \<and>
   ''GET / HTTP/1.1'' @ [LF] @ ''host: example.com'' @ [LF, LF] \<noteq>
     encode [CR, LF] ''GET'' ''/'' ''example.com''"
  by (simp add: fetch_def http_example_def request_def encode_def)

subsubsection \<open>C10\<close>

text \<open>
  C10. Once \<open>headersRead\<close> is set it stays set: whatever chunks the listener
  receives afterwards, it does not throw, the raw header text is unchanged, every
  character is appended to the body, and \<^verbatim>\<open>onHeaders\<close> is not called again.
\<close>

theorem headersRead_monotone:
  "headersRead s \<Longrightarrow>
   \<exists>s'. on_chunks s ds = Inr s' \<and> headersRead s' \<and> rawHeaders s' = rawHeaders s \<and>
        body s' = body s @ concat ds \<and>
        count_list (calls s') OnHeaders = count_list (calls s) OnHeaders"
  by (simp add: on_chunks_concat on_data_body)

theorem headersRead_monotone_witness:
  "headersRead (recognised readResponse ok_head 13) \<and>
   (\<exists>s'. on_chunks (recognised readResponse ok_head 13) [[LF], ''Hello, '', ''world!''] = Inr s' \<and>
        headersRead s' \<and> rawHeaders s' = ok_head \<and>
        body s' = [LF] @ ''Hello, world!'' \<and>
        count_list (calls s') OnHeaders = 1)"
  using headersRead_monotone[of "recognised readResponse ok_head 13" "[[LF], ''Hello, '', ''world!'']"]
  by (simp add: recognised_def readResponse_def)

end
